theory Spec2Isabelle
  imports Main "HOL-Library.Word" "HOL-Library.Sublist"
begin

unbundle bit_operations_syntax

section \<open>The accumulator\<close>

text \<open>
  The program counts the one-bits of every regular file below a root directory.
  The model follows the current version of the program (the one with the error log and
  the shared read buffer); the earlier version of \<open>countFile\<close>, which allocates a
  1000-byte buffer per file, is modelled next to it as \<open>countFile0\<close>.

  Go's \<open>byte\<close> is an 8-bit word. Go's \<open>int\<close> is a signed machine integer whose
  arithmetic wraps around; it is modelled with the 64 bits it has on the platforms the
  program is run on (amd64, arm64), as a 64-bit word that \<open>sint\<close> reads in two's
  complement. On a 32-bit platform the same holds with 32 in place of 64.
\<close>

type_synonym byte = "8 word"
type_synonym goint = "64 word"

text \<open>
  A Go \<open>error\<close> value. \<open>io.EOF\<close> is a sentinel that the code compares by identity;
  every other error is known to the program only through its message.
\<close>

datatype goerr = EOF | Failure string

fun Error :: "goerr \<Rightarrow> string" where
  "Error EOF = ''EOF''"
| "Error (Failure msg) = msg"

record bitcounter =
  bytesRead :: goint
  ones :: goint
  errs :: "string list"
  inbuf :: "byte list"

definition BUFF_SIZE :: nat where
  "BUFF_SIZE = 1000000"

text \<open>\<open>&bitcounter{inbuf: make([]byte, BUFF_SIZE)}\<close>: zero counters, nil error slice.\<close>

definition fresh :: bitcounter where
  "fresh = \<lparr>bytesRead = 0, ones = 0, errs = [], inbuf = replicate BUFF_SIZE 0\<rparr>"

subsection \<open>Counting the bits of one byte\<close>

text \<open>
  \<open>for ; b != 0; c++ { b &= b - 1 }\<close>: the loop of Kernighan's method. The recursion
  is on the byte, which gets smaller with every round.
\<close>

function popcount_loop :: "byte \<Rightarrow> goint \<Rightarrow> goint" where
  "popcount_loop b c = (if b \<noteq> 0 then popcount_loop (b AND (b - 1)) (c + 1) else c)"
  by pat_completeness auto
termination
proof (relation "measure (\<lambda>(b, c). unat b)")
  show "wf (measure (\<lambda>(b :: byte, c :: goint). unat b))"
    by simp
next
  fix b :: byte and c :: goint
  assume nz: "b \<noteq> 0"
  have "b AND (b - 1) \<le> b - 1"
    by (rule word_and_le1)
  moreover have "b - 1 < b"
    using nz by (simp add: word_less_nat_alt unat_minus_one unat_gt_0)
  ultimately have "b AND (b - 1) < b"
    by simp
  then show "((b AND (b - 1), c + 1), (b, c)) \<in> measure (\<lambda>(b, c). unat b)"
    by (simp add: word_less_nat_alt)
qed

declare popcount_loop.simps [simp del]

text \<open>
  \<open>for _, b := range bc.inbuf[:bread] { c := 0; ...; bc.ones += c }\<close>: the bytes of
  one chunk, each counted from \<open>c = 0\<close> and added to \<open>ones\<close>.
\<close>

fun countChunk :: "bitcounter \<Rightarrow> byte list \<Rightarrow> bitcounter" where
  "countChunk bc [] = bc"
| "countChunk bc (b # bs) = countChunk (bc\<lparr>ones := ones bc + popcount_loop b 0\<rparr>) bs"

subsection \<open>Streams\<close>

text \<open>
  The byte stream of an open file is an external collaborator. It is modelled by the
  results its \<open>Read\<close> calls give, in order: the bytes a call offers and the error it
  returns with them (\<open>None\<close> is Go's \<open>nil\<close>). A call never delivers more than the
  buffer holds (\<open>0 <= n <= len(p)\<close> is the contract of \<open>io.Reader\<close>): of the bytes
  offered it delivers those that fit, and it writes them over the front of the buffer.
  A file has finitely many bytes: once the results are used up the stream is at its end
  and \<open>Read\<close> returns \<open>0, io.EOF\<close>. This is how a file behaves when it is read into a
  buffer that is not empty, as the one \<open>main\<close> and the tests allocate is; with an empty
  buffer \<open>bufio.Reader\<close> returns \<open>0, nil\<close> without reading, which no finite list of
  results describes.
\<close>

type_synonym read_result = "byte list \<times> goerr option"
type_synonym stream = "read_result list"

fun Read :: "stream \<Rightarrow> byte list \<Rightarrow> (nat \<times> goerr option) \<times> byte list \<times> stream" where
  "Read [] p = ((0, Some EOF), p, [])"
| "Read ((bs, err) # rest) p =
     (let n = min (length bs) (length p)
      in ((n, err), take n bs @ drop n p, rest))"

subsection \<open>countFile\<close>

text \<open>
  \<open>for ; err != io.EOF; bread, err = reader.Read(bc.inbuf) { ... }\<close> with \<open>bread = 0\<close>
  and \<open>err = nil\<close> before the first round. One call of \<open>countFile_loop\<close> is the loop
  test, the body and the post statement; the result is the returned error and the
  accumulator as the loop leaves it.
\<close>

function countFile_loop ::
  "bitcounter \<Rightarrow> stream \<Rightarrow> nat \<Rightarrow> goerr option \<Rightarrow> goerr option \<times> bitcounter" where
  "countFile_loop bc reader bread err =
     (if err = Some EOF then (None, bc)
      else if err \<noteq> None then (err, bc)
      else
        (let bc1 = countChunk bc (take bread (inbuf bc));
             bc2 = bc1\<lparr>bytesRead := bytesRead bc1 + of_nat bread\<rparr>
         in case Read reader (inbuf bc2) of
              ((bread', err'), p, reader') \<Rightarrow>
                countFile_loop (bc2\<lparr>inbuf := p\<rparr>) reader' bread' err'))"
  by pat_completeness auto
termination
  apply (relation "measures [\<lambda>(bc, reader, bread, err). length reader,
                           \<lambda>(bc, reader, bread, err). if err = None then 1 else 0]")
   apply simp
  subgoal for bc reader
    by (cases reader) (auto simp: Let_def)
  done

declare countFile_loop.simps [simp del]

definition countFile :: "bitcounter \<Rightarrow> stream \<Rightarrow> goerr option \<times> bitcounter" where
  "countFile bc infile = countFile_loop bc infile 0 None"

subsection \<open>The earlier countFile\<close>

text \<open>
  The first version of the program has only the two counters and gives every file a
  buffer of its own: \<open>inbuf := make([]byte, 1000)\<close>. Its loop is the same.
\<close>

record bitcounter0 =
  bytesRead0 :: goint
  ones0 :: goint

fun countChunk0 :: "bitcounter0 \<Rightarrow> byte list \<Rightarrow> bitcounter0" where
  "countChunk0 bc [] = bc"
| "countChunk0 bc (b # bs) = countChunk0 (bc\<lparr>ones0 := ones0 bc + popcount_loop b 0\<rparr>) bs"

function countFile0_loop ::
  "bitcounter0 \<Rightarrow> byte list \<Rightarrow> stream \<Rightarrow> nat \<Rightarrow> goerr option \<Rightarrow> goerr option \<times> bitcounter0" where
  "countFile0_loop bc inbuf0 reader bread err =
     (if err = Some EOF then (None, bc)
      else if err \<noteq> None then (err, bc)
      else
        (let bc1 = countChunk0 bc (take bread inbuf0);
             bc2 = bc1\<lparr>bytesRead0 := bytesRead0 bc1 + of_nat bread\<rparr>
         in case Read reader inbuf0 of
              ((bread', err'), p, reader') \<Rightarrow>
                countFile0_loop bc2 p reader' bread' err'))"
  by pat_completeness auto
termination
  apply (relation "measures [\<lambda>(bc, inbuf0, reader, bread, err). length reader,
                           \<lambda>(bc, inbuf0, reader, bread, err). if err = None then 1 else 0]")
   apply simp
  subgoal for bc inbuf0 reader
    by (cases reader) (auto simp: Let_def)
  done

declare countFile0_loop.simps [simp del]

definition countFile0 :: "bitcounter0 \<Rightarrow> stream \<Rightarrow> goerr option \<times> bitcounter0" where
  "countFile0 bc infile = countFile0_loop bc (replicate 1000 0) infile 0 None"

section \<open>The scanner\<close>

subsection \<open>The file system\<close>

text \<open>
  What the traversal sees below the root. A regular file carries what \<open>os.Open\<close>
  gives for it: the cause of the failure, or the stream of its bytes. A directory
  carries what \<open>ReadDir\<close> gives for it: an error or none, and the entries that could be
  read, by name. Everything else (a symbolic link, a device, a socket) is neither a
  regular file nor a directory.
\<close>

datatype open_result = OpenFails string | Opens stream

datatype fsnode =
    RegularFile open_result
  | Irregular
  | Directory "goerr option" "(string \<times> fsnode) list"

text \<open>
  \<open>os.DirFS(root)\<close> together with the \<open>Stat\<close> of its \<open>"."\<close> that starts the walk: the
  error of a root that cannot be used, or the node found there.
\<close>

type_synonym dirfs = "goerr + fsnode"

text \<open>
  \<open>os.Open\<close> fails with a \<open>*PathError\<close>, whose message is the operation, the path and
  the cause.
\<close>

fun os_Open :: "string \<Rightarrow> open_result \<Rightarrow> goerr + stream" where
  "os_Open name (OpenFails cause) = Inl (Failure (''open '' @ name @ '': '' @ cause))"
| "os_Open name (Opens f) = Inr f"

subsection \<open>The callback of count\<close>

text \<open>
  The function literal that \<open>count\<close> hands to \<open>fs.WalkDir\<close>. It works on the
  accumulator and on standard output (one list entry per line printed by
  \<open>fmt.Printf\<close> of the full path); it returns \<open>nil\<close> on every path. The deferred
  \<open>in.Close()\<close> has no effect on either and is left out.
\<close>

type_synonym scan_state = "bitcounter \<times> string list"

definition walkFn ::
  "string \<Rightarrow> scan_state \<Rightarrow> string \<Rightarrow> fsnode option \<Rightarrow> goerr option \<Rightarrow> goerr option \<times> scan_state" where
  "walkFn root st path d err =
     (case st of (bc, out) \<Rightarrow>
       (case err of
          Some e \<Rightarrow>
            (None, (bc\<lparr>errs := errs bc @ [''walk error for '' @ path @ '': '' @ Error e]\<rparr>, out))
        | None \<Rightarrow>
            (case d of
               None \<Rightarrow> (None, (bc\<lparr>errs := errs bc @ [''nil fs.DirEntry: '' @ path]\<rparr>, out))
             | Some (RegularFile file) \<Rightarrow>
                 (let fullPath = (if path \<noteq> ''.'' then root @ ''/'' @ path else root);
                      out1 = out @ [fullPath]
                  in case os_Open fullPath file of
                       Inl operr \<Rightarrow> (None, (bc\<lparr>errs := errs bc @ [Error operr]\<rparr>, out1))
                     | Inr infile \<Rightarrow>
                         (case countFile bc infile of
                            (Some countErr, bc1) \<Rightarrow>
                              (None,
                               (bc1\<lparr>errs := errs bc1 @
                                  [''error counting file '' @ fullPath @ '': '' @ Error countErr]\<rparr>,
                                out1))
                          | (None, bc1) \<Rightarrow> (None, (bc1, out1))))
             | Some _ \<Rightarrow> (None, (bc, out)))))"

subsection \<open>fs.WalkDir\<close>

text \<open>
  The traversal of Go's standard library (\<open>io/fs\<close>), for a callback that returns \<open>nil\<close>
  or an ordinary error (the sentinels \<open>SkipDir\<close> and \<open>SkipAll\<close> are not among the
  errors of this model; the callback of \<open>count\<close> never returns them). \<open>walkDir\<close> calls
  the callback on the entry; for a directory it then reads the entries, reports a
  \<open>ReadDir\<close> error in a second call, and walks the entries that were read, in order.
  An error returned by the callback ends the walk and is what \<open>WalkDir\<close> returns.
  \<open>WalkDir\<close> itself starts with \<open>Stat\<close> on the root, and gives a failure there to the
  callback with a nil entry.
\<close>

definition Join :: "string \<Rightarrow> string \<Rightarrow> string" where
  "Join name elem = (if name = ''.'' then elem else name @ ''/'' @ elem)"

type_synonym 's WalkDirFunc =
  "'s \<Rightarrow> string \<Rightarrow> fsnode option \<Rightarrow> goerr option \<Rightarrow> goerr option \<times> 's"

fun walkDir :: "'s WalkDirFunc \<Rightarrow> 's \<Rightarrow> string \<Rightarrow> fsnode \<Rightarrow> goerr option \<times> 's"
  and walkEntries ::
    "'s WalkDirFunc \<Rightarrow> 's \<Rightarrow> string \<Rightarrow> (string \<times> fsnode) list \<Rightarrow> goerr option \<times> 's" where
  "walkDir fn st name (RegularFile file) = fn st name (Some (RegularFile file)) None"
| "walkDir fn st name Irregular = fn st name (Some Irregular) None"
| "walkDir fn st name (Directory rderr dirs) =
     (case fn st name (Some (Directory rderr dirs)) None of
        (Some err, st1) \<Rightarrow> (Some err, st1)
      | (None, st1) \<Rightarrow>
          (case rderr of
             None \<Rightarrow> walkEntries fn st1 name dirs
           | Some e \<Rightarrow>
               (case fn st1 name (Some (Directory rderr dirs)) (Some e) of
                  (Some err, st2) \<Rightarrow> (Some err, st2)
                | (None, st2) \<Rightarrow> walkEntries fn st2 name dirs)))"
| "walkEntries fn st name [] = (None, st)"
| "walkEntries fn st name ((elem, d1) # rest) =
     (case walkDir fn st (Join name elem) d1 of
        (Some err, st1) \<Rightarrow> (Some err, st1)
      | (None, st1) \<Rightarrow> walkEntries fn st1 name rest)"

definition WalkDir :: "'s WalkDirFunc \<Rightarrow> 's \<Rightarrow> dirfs \<Rightarrow> goerr option \<times> 's" where
  "WalkDir fn st fsys =
     (case fsys of
        Inl err \<Rightarrow> fn st ''.'' None (Some err)
      | Inr info \<Rightarrow> walkDir fn st ''.'' info)"

subsection \<open>count and main\<close>

definition count :: "string \<Rightarrow> dirfs \<Rightarrow> scan_state \<Rightarrow> goerr option \<times> scan_state" where
  "count root fsys st = WalkDir (walkFn root) st fsys"

text \<open>
  \<open>main\<close> scans \<open>"."\<close> with a fresh accumulator and panics on an error of \<open>count\<close>.
  Otherwise it prints the report, which is a function of the final accumulator; the
  percentages are floating-point and are not modelled.
\<close>

datatype exit = Panic goerr | Report bitcounter "string list"

definition main :: "dirfs \<Rightarrow> exit" where
  "main fsys =
     (case count ''.'' fsys (fresh, []) of
        (Some err, st) \<Rightarrow> Panic err
      | (None, (bc, out)) \<Rightarrow> Report bc out)"

section \<open>Reference notions\<close>

text \<open>
  The notions the properties are stated with. None of them is used by the model above.
\<close>

subsection \<open>Population count\<close>

text \<open>The number of bits of a byte that are 1, and its sum over a byte sequence.\<close>

definition popcount_ref :: "byte \<Rightarrow> nat" where
  "popcount_ref b = length (filter (bit b) [0..<8])"

definition countOnes :: "byte list \<Rightarrow> int" where
  "countOnes B = (\<Sum>b\<leftarrow>B. int (popcount_ref b))"

text \<open>The same count for a natural number, below a given bit position.\<close>

definition set_bits_below :: "nat \<Rightarrow> nat \<Rightarrow> nat" where
  "set_bits_below k n = length (filter (bit n) [0..<k])"

subsection \<open>What a stream contributes\<close>

text \<open>A stream whose reads succeed and deliver the given chunks, one per read.\<close>

definition delivered :: "byte list list \<Rightarrow> stream" where
  "delivered chunks = map (\<lambda>c. (c, None)) chunks"

text \<open>
  The bytes of the reads before the first read that returns an error, each read cut to
  the capacity of the buffer; and the error \<open>countFile\<close> is expected to return: that
  first error, unless it is the end of the stream.
\<close>

definition tallied :: "nat \<Rightarrow> stream \<Rightarrow> byte list" where
  "tallied cap s = concat (map (\<lambda>r. take cap (fst r)) (takeWhile (\<lambda>r. snd r = None) s))"

definition returned :: "stream \<Rightarrow> goerr option" where
  "returned s =
     (case dropWhile (\<lambda>r. snd r = None) s of
        [] \<Rightarrow> None
      | r # rest \<Rightarrow> (if snd r = Some EOF then None else snd r))"

text \<open>The contents of the buffer after the reads up to the first error.\<close>

fun buffer_after :: "byte list \<Rightarrow> stream \<Rightarrow> byte list" where
  "buffer_after p [] = p"
| "buffer_after p ((d, err) # s) =
     (let q = take (min (length d) (length p)) d @ drop (min (length d) (length p)) p
      in if err = None then buffer_after q s else q)"

subsection \<open>The invariant of the totals\<close>

text \<open>
  The invariant of the data model, on the values of the two counters as Go integers;
  the product is that of the integers, not Go's.
\<close>

definition totals_ok :: "bitcounter \<Rightarrow> bool" where
  "totals_ok bc = (0 \<le> sint (ones bc) \<and> sint (ones bc) \<le> sint (bytesRead bc) * 8)"

subsection \<open>The failures of a scan\<close>

text \<open>
  The four kinds of failure that do not end a scan, each with the path it concerns and
  its cause; \<open>render\<close> is the entry expected in the error log.
\<close>

datatype failure =
    WalkError string goerr
  | NilEntry string
  | OpenError string string
  | CountError string goerr

fun render :: "failure \<Rightarrow> string" where
  "render (WalkError path e) = ''walk error for '' @ path @ '': '' @ Error e"
| "render (NilEntry path) = ''nil fs.DirEntry: '' @ path"
| "render (OpenError path cause) = ''open '' @ path @ '': '' @ cause"
| "render (CountError path e) = ''error counting file '' @ path @ '': '' @ Error e"

fun failed_path :: "failure \<Rightarrow> string" where
  "failed_path (WalkError path e) = path"
| "failed_path (NilEntry path) = path"
| "failed_path (OpenError path cause) = path"
| "failed_path (CountError path e) = path"

fun failed_cause :: "failure \<Rightarrow> string" where
  "failed_cause (WalkError path e) = Error e"
| "failed_cause (NilEntry path) = ''nil fs.DirEntry''"
| "failed_cause (OpenError path cause) = cause"
| "failed_cause (CountError path e) = Error e"

definition fullPath :: "string \<Rightarrow> string \<Rightarrow> string" where
  "fullPath root path = (if path \<noteq> ''.'' then root @ ''/'' @ path else root)"

text \<open>
  The failures met below a node, in the order of the walk: a directory that cannot be
  read, a regular file that cannot be opened, a regular file whose stream fails. Next
  to them, the bytes that are expected in the totals and the regular files visited.
\<close>

fun file_failures :: "string \<Rightarrow> open_result \<Rightarrow> failure list" where
  "file_failures name (OpenFails cause) = [OpenError name cause]"
| "file_failures name (Opens s) =
     (case returned s of None \<Rightarrow> [] | Some e \<Rightarrow> [CountError name e])"

fun file_bytes :: "nat \<Rightarrow> open_result \<Rightarrow> byte list" where
  "file_bytes cap (OpenFails cause) = []"
| "file_bytes cap (Opens s) = tallied cap s"

fun node_failures :: "string \<Rightarrow> string \<Rightarrow> fsnode \<Rightarrow> failure list"
  and entries_failures :: "string \<Rightarrow> string \<Rightarrow> (string \<times> fsnode) list \<Rightarrow> failure list" where
  "node_failures root name (RegularFile file) = file_failures (fullPath root name) file"
| "node_failures root name Irregular = []"
| "node_failures root name (Directory rderr dirs) =
     (case rderr of None \<Rightarrow> [] | Some e \<Rightarrow> [WalkError name e]) @ entries_failures root name dirs"
| "entries_failures root name [] = []"
| "entries_failures root name ((elem, d) # rest) =
     node_failures root (Join name elem) d @ entries_failures root name rest"

fun node_bytes :: "nat \<Rightarrow> fsnode \<Rightarrow> byte list"
  and entries_bytes :: "nat \<Rightarrow> (string \<times> fsnode) list \<Rightarrow> byte list" where
  "node_bytes cap (RegularFile file) = file_bytes cap file"
| "node_bytes cap Irregular = []"
| "node_bytes cap (Directory rderr dirs) = entries_bytes cap dirs"
| "entries_bytes cap [] = []"
| "entries_bytes cap ((elem, d) # rest) = node_bytes cap d @ entries_bytes cap rest"

fun node_files :: "string \<Rightarrow> string \<Rightarrow> fsnode \<Rightarrow> string list"
  and entries_files :: "string \<Rightarrow> string \<Rightarrow> (string \<times> fsnode) list \<Rightarrow> string list" where
  "node_files root name (RegularFile file) = [fullPath root name]"
| "node_files root name Irregular = []"
| "node_files root name (Directory rderr dirs) = entries_files root name dirs"
| "entries_files root name [] = []"
| "entries_files root name ((elem, d) # rest) =
     node_files root (Join name elem) d @ entries_files root name rest"

fun scan_failures :: "string \<Rightarrow> dirfs \<Rightarrow> failure list" where
  "scan_failures root (Inl e) = [WalkError ''.'' e]"
| "scan_failures root (Inr info) = node_failures root ''.'' info"

fun scan_bytes :: "nat \<Rightarrow> dirfs \<Rightarrow> byte list" where
  "scan_bytes cap (Inl e) = []"
| "scan_bytes cap (Inr info) = node_bytes cap info"

fun scan_files :: "string \<Rightarrow> dirfs \<Rightarrow> string list" where
  "scan_files root (Inl e) = []"
| "scan_files root (Inr info) = node_files root ''.'' info"

text \<open>
  The regular files below a node, each with what opening it gives, and what it means
  for such a file to fail: it cannot be opened, or its stream ends in an error that is
  not the end of the stream.
\<close>

fun fails :: "open_result \<Rightarrow> bool" where
  "fails (OpenFails cause) = True"
| "fails (Opens s) = (returned s \<noteq> None)"

fun node_opens :: "fsnode \<Rightarrow> open_result list"
  and entries_opens :: "(string \<times> fsnode) list \<Rightarrow> open_result list" where
  "node_opens (RegularFile file) = [file]"
| "node_opens Irregular = []"
| "node_opens (Directory rderr dirs) = entries_opens dirs"
| "entries_opens [] = []"
| "entries_opens ((elem, d) # rest) = node_opens d @ entries_opens rest"

fun scan_opens :: "dirfs \<Rightarrow> open_result list" where
  "scan_opens (Inl e) = []"
| "scan_opens (Inr info) = node_opens info"

text \<open>
  An accumulator with bytes, failures and a buffer folded in, the counters growing as
  Go's integers do.
\<close>

definition folded :: "bitcounter \<Rightarrow> byte list \<Rightarrow> failure list \<Rightarrow> byte list \<Rightarrow> bitcounter" where
  "folded bc B fs p =
     bc\<lparr>bytesRead := bytesRead bc + of_nat (length B),
        ones := ones bc + word_of_int (countOnes B),
        errs := errs bc @ map render fs,
        inbuf := p\<rparr>"

subsection \<open>The directory of the end-to-end scenario\<close>

text \<open>
  \<open>file1.txt\<close> holds \<open>"hello"\<close>, \<open>file2.bin\<close> the bytes \<open>FF 00\<close>, \<open>empty.txt\<close> nothing
  and \<open>subdir/subfile.txt\<close> the byte \<open>AA\<close>. Every file opens, gives its bytes in one
  read and then reports the end of the stream; \<open>ReadDir\<close> lists entries by name.
\<close>

definition hello :: "byte list" where
  "hello = [0x68, 0x65, 0x6C, 0x6C, 0x6F]"

definition at_end :: read_result where
  "at_end = ([], Some EOF)"

definition testdir :: fsnode where
  "testdir =
     Directory None
       [(''empty.txt'', RegularFile (Opens [at_end])),
        (''file1.txt'', RegularFile (Opens [(hello, None), at_end])),
        (''file2.bin'', RegularFile (Opens [([0xFF, 0x00], None), at_end])),
        (''subdir'', Directory None
           [(''subfile.txt'', RegularFile (Opens [([0xAA], None), at_end]))])]"

section \<open>Auxiliary facts\<close>

lemma set_bits_below_Suc:
  "set_bits_below (Suc k) n = (if odd n then 1 else 0) + set_bits_below k (n div 2)"
proof -
  have "[0..<Suc k] = 0 # map Suc [0..<k]"
    by (simp add: upt_conv_Cons map_Suc_upt del: upt_Suc)
  then show ?thesis
    by (simp add: set_bits_below_def filter_map o_def bit_Suc bit_0 del: upt_Suc)
qed

lemma and_pred_odd: "odd (n::nat) \<Longrightarrow> n AND (n - 1) = 2 * (n div 2)"
proof -
  assume o: "odd n"
  then have "(n - 1) div 2 = n div 2" by presburger
  moreover have "n AND (n - 1) = of_bool (odd n \<and> odd (n - 1)) + 2 * ((n div 2) AND ((n - 1) div 2))"
    by (rule and_nat_rec)
  ultimately show ?thesis using o by simp
qed

lemma and_pred_even: "even (n::nat) \<Longrightarrow> 0 < n \<Longrightarrow> n AND (n - 1) = 2 * ((n div 2) AND (n div 2 - 1))"
proof -
  assume e: "even n" and p: "0 < n"
  then have "(n - 1) div 2 = n div 2 - 1" by presburger
  moreover have "n AND (n - 1) = of_bool (odd n \<and> odd (n - 1)) + 2 * ((n div 2) AND ((n - 1) div 2))"
    by (rule and_nat_rec)
  ultimately show ?thesis using e by simp
qed

lemma clear_lowest_count:
  "0 < n \<Longrightarrow> n < 2 ^ k \<Longrightarrow> set_bits_below k (n AND (n - 1)) + 1 = set_bits_below k n"
proof (induction k arbitrary: n)
  case 0
  then show ?case by simp
next
  case (Suc k)
  show ?case
  proof (cases "odd n")
    case True
    then have "n AND (n - 1) = 2 * (n div 2)" by (rule and_pred_odd)
    moreover from True have "(n - 1) div 2 = n div 2" by presburger
    ultimately show ?thesis using True
      by (simp add: set_bits_below_Suc)
  next
    case False
    then have e: "even n" by simp
    from e Suc.prems have m: "0 < n div 2" "n div 2 < 2 ^ k" by auto
    from e Suc.prems(1) have "n AND (n - 1) = 2 * ((n div 2) AND (n div 2 - 1))"
      by (rule and_pred_even)
    with Suc.IH [OF m] e show ?thesis
      by (simp add: set_bits_below_Suc)
  qed
qed

lemma popcount_ref_unat: "popcount_ref b = set_bits_below 8 (unat b)"
proof -
  have "bit (unat b) = bit b" by (rule ext) (simp add: bit_unsigned_iff)
  then show ?thesis by (simp add: popcount_ref_def set_bits_below_def)
qed

lemma unat_clear_lowest: "b \<noteq> 0 \<Longrightarrow> unat (b AND (b - 1)) = unat b AND (unat b - 1)" for b :: byte
  by (simp add: unsigned_and_eq unat_minus_one)

lemma popcount_ref_step: "b \<noteq> 0 \<Longrightarrow> popcount_ref (b AND (b - 1)) + 1 = popcount_ref b"
proof -
  assume nz: "b \<noteq> 0"
  have "unat b < 2 ^ 8" using unsigned_less [of b] by simp
  moreover have "0 < unat b" using nz by (simp add: unat_gt_0)
  ultimately show ?thesis
    using clear_lowest_count [of "unat b" 8] nz
    by (simp add: popcount_ref_unat unat_clear_lowest)
qed

lemma popcount_loop_ref: "popcount_loop b c = c + of_nat (popcount_ref b)"
proof (induction b c rule: popcount_loop.induct)
  case (1 b c)
  show ?case
  proof (cases "b = 0")
    case True
    then show ?thesis by (simp add: popcount_loop.simps popcount_ref_def)
  next
    case False
    have "(of_nat (popcount_ref b) :: goint) = of_nat (popcount_ref (b AND (b - 1)) + 1)"
      by (simp only: popcount_ref_step [OF False])
    then have "(of_nat (popcount_ref b) :: goint) = of_nat (popcount_ref (b AND (b - 1))) + 1"
      by simp
    with "1.IH" False show ?thesis
      by (subst popcount_loop.simps) simp
  qed
qed

lemma popcount_ref_le: "popcount_ref b \<le> 8"
  using length_filter_le [of "bit b" "[0..<8]"] by (simp add: popcount_ref_def)

lemma countOnes_simps [simp]:
  "countOnes [] = 0"
  "countOnes (b # bs) = int (popcount_ref b) + countOnes bs"
  "countOnes (xs @ ys) = countOnes xs + countOnes ys"
  by (simp_all add: countOnes_def)

lemma countOnes_bounds: "0 \<le> countOnes B \<and> countOnes B \<le> 8 * int (length B)"
proof (induction B)
  case Nil
  show ?case by simp
next
  case (Cons b B)
  with popcount_ref_le [of b] show ?case by simp
qed

lemma countChunk_eq: "countChunk bc bs = bc\<lparr>ones := ones bc + word_of_int (countOnes bs)\<rparr>"
  by (induction bs arbitrary: bc) (simp_all add: popcount_loop_ref)

lemma tallied_simps [simp]:
  "tallied cap [] = []"
  "tallied cap ((d, None) # s) = take cap d @ tallied cap s"
  "tallied cap ((d, Some e) # s) = []"
  by (simp_all add: tallied_def)

lemma returned_simps [simp]:
  "returned [] = None"
  "returned ((d, None) # s) = returned s"
  "returned ((d, Some e) # s) = (if e = EOF then None else Some e)"
  by (simp_all add: returned_def)

lemma length_buffer_after [simp]: "length (buffer_after p s) = length p"
  by (induction p s rule: buffer_after.induct) (auto simp: Let_def)

lemma countFile_loop_Some:
  "countFile_loop bc s bread (Some e) = (if e = EOF then None else Some e, bc)"
  by (subst countFile_loop.simps) simp

lemma countFile_loop_closed:
  "bread \<le> length (inbuf bc) \<Longrightarrow>
   countFile_loop bc s bread None =
     (returned s,
      bc\<lparr>bytesRead := bytesRead bc + of_nat bread + of_nat (length (tallied (length (inbuf bc)) s)),
         ones := ones bc + word_of_int (countOnes (take bread (inbuf bc))) + word_of_int (countOnes (tallied (length (inbuf bc)) s)),
         inbuf := buffer_after (inbuf bc) s\<rparr>)"
proof (induction s arbitrary: bc bread)
  case Nil
  show ?case
    by (subst countFile_loop.simps) (simp add: countChunk_eq countFile_loop_Some)
next
  case (Cons r s)
  obtain d err where r: "r = (d, err)" by (cases r)
  show ?case
  proof (cases err)
    case None
    let ?n = "min (length d) (length (inbuf bc))"
    let ?p = "take ?n d @ drop ?n (inbuf bc)"
    let ?bc = "bc\<lparr>ones := ones bc + word_of_int (countOnes (take bread (inbuf bc))),
                  bytesRead := bytesRead bc + of_nat bread, inbuf := ?p\<rparr>"
    have len: "length ?p = length (inbuf bc)" by simp
    have "?n \<le> length (inbuf ?bc)" by simp
    from Cons.IH [OF this] have IH:
      "countFile_loop ?bc s ?n None =
        (returned s,
         ?bc\<lparr>bytesRead := bytesRead ?bc + of_nat ?n + of_nat (length (tallied (length (inbuf ?bc)) s)),
            ones := ones ?bc + word_of_int (countOnes (take ?n (inbuf ?bc))) + word_of_int (countOnes (tallied (length (inbuf ?bc)) s)),
            inbuf := buffer_after (inbuf ?bc) s\<rparr>)" .
    have tk: "take ?n ?p = take (length (inbuf bc)) d" by (simp add: min_def)
    have st: "countFile_loop bc (r # s) bread None = countFile_loop ?bc s ?n None"
      by (subst countFile_loop.simps) (simp add: r None countChunk_eq Let_def)
    show ?thesis
      unfolding st IH using tk len
      by (simp add: r None Let_def min_def)
  next
    case (Some e)
    show ?thesis
      by (subst countFile_loop.simps)
        (simp add: r Some countChunk_eq Let_def countFile_loop_Some)
  qed
qed

lemma countFile_closed:
  "countFile bc s =
     (returned s,
      bc\<lparr>bytesRead := bytesRead bc + of_nat (length (tallied (length (inbuf bc)) s)),
         ones := ones bc + word_of_int (countOnes (tallied (length (inbuf bc)) s)),
         inbuf := buffer_after (inbuf bc) s\<rparr>)"
  using countFile_loop_closed [of 0 bc s] by (simp add: countFile_def)

lemma folded_sel [simp]:
  "bytesRead (folded bc B fs p) = bytesRead bc + of_nat (length B)"
  "ones (folded bc B fs p) = ones bc + word_of_int (countOnes B)"
  "errs (folded bc B fs p) = errs bc @ map render fs"
  "inbuf (folded bc B fs p) = p"
  by (simp_all add: folded_def)

lemma folded_folded:
  "folded (folded bc B fs p) B' fs' p' = folded bc (B @ B') (fs @ fs') p'"
  by (simp add: folded_def)

lemma folded_nil: "folded bc [] [] (inbuf bc) = bc"
  by (simp add: folded_def)

lemma walkFn_file:
  "\<exists>p. length p = length (inbuf bc) \<and>
     walkFn root (bc, out) name (Some (RegularFile file)) None =
       (None, (folded bc (file_bytes (length (inbuf bc)) file)
                 (file_failures (fullPath root name) file) p,
               out @ [fullPath root name]))"
proof (cases "file")
  case (OpenFails cause)
  have "walkFn root (bc, out) name (Some (RegularFile file)) None =
       (None, (folded bc (file_bytes (length (inbuf bc)) file)
                 (file_failures (fullPath root name) file) (inbuf bc),
               out @ [fullPath root name]))"
    by (simp add: walkFn_def OpenFails fullPath_def folded_def Let_def)
  then show ?thesis by blast
next
  case (Opens s)
  have "walkFn root (bc, out) name (Some (RegularFile file)) None =
       (None, (folded bc (file_bytes (length (inbuf bc)) file)
                 (file_failures (fullPath root name) file) (buffer_after (inbuf bc) s),
               out @ [fullPath root name]))"
    by (cases "returned s")
      (simp_all add: walkFn_def Opens fullPath_def folded_def Let_def countFile_closed)
  moreover have "length (buffer_after (inbuf bc) s) = length (inbuf bc)" by simp
  ultimately show ?thesis by blast
qed

lemma walkFn_other:
  "walkFn root (bc, out) name (Some Irregular) None = (None, (bc, out))"
  "walkFn root (bc, out) name (Some (Directory rderr dirs)) None = (None, (bc, out))"
  "walkFn root (bc, out) name d (Some e) = (None, (folded bc [] [WalkError name e] (inbuf bc), out))"
  "walkFn root (bc, out) name None None = (None, (folded bc [] [NilEntry name] (inbuf bc), out))"
  by (simp_all add: walkFn_def folded_def)

lemma walk_closed:
  "(\<forall>bc out. fn = walkFn root \<longrightarrow> st = (bc, out) \<longrightarrow>
     (\<exists>p. length p = length (inbuf bc) \<and>
        walkDir fn st name d =
          (None, (folded bc (node_bytes (length (inbuf bc)) d) (node_failures root name d) p,
                  out @ node_files root name d))))"
  "(\<forall>bc out. fn = walkFn root \<longrightarrow> st = (bc, out) \<longrightarrow>
     (\<exists>p. length p = length (inbuf bc) \<and>
        walkEntries fn st name ds =
          (None, (folded bc (entries_bytes (length (inbuf bc)) ds) (entries_failures root name ds) p,
                  out @ entries_files root name ds))))"
proof (induction fn st name d and fn st name ds rule: walkDir_walkEntries.induct)
  case (1 fn st name f)
  show ?case using walkFn_file [of _ root _ name f] by auto
next
  case (2 fn st name)
  show ?case using folded_nil by (auto simp: walkFn_other intro!: exI [of _ "inbuf _"])
next
  case (3 fn st name rderr dirs)
  show ?case
  proof (intro allI impI)
    fix bc out
    assume fn: "fn = walkFn root" and st: "st = (bc, out)"
    have first: "fn st name (Some (Directory rderr dirs)) None = (None, (bc, out))"
      by (simp add: fn st walkFn_other)
    show "\<exists>p. length p = length (inbuf bc) \<and>
        walkDir fn st name (Directory rderr dirs) =
          (None, (folded bc (node_bytes (length (inbuf bc)) (Directory rderr dirs))
                    (node_failures root name (Directory rderr dirs)) p,
                  out @ node_files root name (Directory rderr dirs)))"
    proof (cases rderr)
      case None
      from "3.IH"(1) [OF first [symmetric] refl None] fn
      obtain p where "length p = length (inbuf bc)"
        and "walkEntries fn (bc, out) name dirs =
          (None, (folded bc (entries_bytes (length (inbuf bc)) dirs) (entries_failures root name dirs) p,
                  out @ entries_files root name dirs))"
        by blast
      then show ?thesis using first None by auto
    next
      case (Some e)
      let ?bc = "folded bc [] [WalkError name e] (inbuf bc)"
      have second: "fn (bc, out) name (Some (Directory rderr dirs)) (Some e) = (None, (?bc, out))"
        by (simp add: fn walkFn_other)
      from "3.IH"(2) [OF first [symmetric] refl Some second [symmetric] refl] fn
      obtain p where "length p = length (inbuf ?bc)"
        and "walkEntries fn (?bc, out) name dirs =
          (None, (folded ?bc (entries_bytes (length (inbuf ?bc)) dirs) (entries_failures root name dirs) p,
                  out @ entries_files root name dirs))"
        by blast
      then show ?thesis using first second Some by (auto simp: folded_folded)
    qed
  qed
next
  case (4 fn st name)
  show ?case using folded_nil by (auto intro!: exI [of _ "inbuf _"])
next
  case (5 fn st name elem d1 rest)
  show ?case
  proof (intro allI impI)
    fix bc out
    assume fn: "fn = walkFn root" and st: "st = (bc, out)"
    from "5.IH"(1) fn st obtain p where p: "length p = length (inbuf bc)"
      and one: "walkDir fn st (Join name elem) d1 =
          (None, (folded bc (node_bytes (length (inbuf bc)) d1) (node_failures root (Join name elem) d1) p,
                  out @ node_files root (Join name elem) d1))"
      by blast
    let ?bc = "folded bc (node_bytes (length (inbuf bc)) d1) (node_failures root (Join name elem) d1) p"
    from "5.IH"(2) [OF one [symmetric] refl] fn
    obtain q where q: "length q = length (inbuf ?bc)"
      and two: "walkEntries fn (?bc, out @ node_files root (Join name elem) d1) name rest =
          (None, (folded ?bc (entries_bytes (length (inbuf ?bc)) rest) (entries_failures root name rest) q,
                  (out @ node_files root (Join name elem) d1) @ entries_files root name rest))"
      by blast
    show "\<exists>p. length p = length (inbuf bc) \<and>
        walkEntries fn st name ((elem, d1) # rest) =
          (None, (folded bc (entries_bytes (length (inbuf bc)) ((elem, d1) # rest))
                    (entries_failures root name ((elem, d1) # rest)) p,
                  out @ entries_files root name ((elem, d1) # rest)))"
      using p q one two by (auto simp: folded_folded)
  qed
qed

lemma count_closed:
  "\<exists>p. length p = length (inbuf bc) \<and>
     count root fsys (bc, out) =
       (None, (folded bc (scan_bytes (length (inbuf bc)) fsys) (scan_failures root fsys) p,
               out @ scan_files root fsys))"
proof (cases fsys)
  case (Inl e)
  have "count root fsys (bc, out) =
       (None, (folded bc (scan_bytes (length (inbuf bc)) fsys) (scan_failures root fsys) (inbuf bc),
               out @ scan_files root fsys))"
    by (simp add: count_def WalkDir_def Inl walkFn_other)
  then show ?thesis by blast
next
  case (Inr info)
  from walk_closed(1) [of "walkFn root" root "(bc, out)" "''.''" info]
  show ?thesis by (simp add: count_def WalkDir_def Inr)
qed

lemma tallied_delivered:
  "\<forall>c\<in>set chunks. length c \<le> cap \<Longrightarrow>
   tallied cap (delivered chunks @ s) = concat chunks @ tallied cap s"
  by (induction chunks) (simp_all add: delivered_def)

lemma returned_delivered: "returned (delivered chunks @ s) = returned s"
  by (induction chunks) (simp_all add: delivered_def)


lemma countChunk0_eq: "countChunk0 bc bs = bc\<lparr>ones0 := ones0 bc + word_of_int (countOnes bs)\<rparr>"
  by (induction bs arbitrary: bc) (simp_all add: popcount_loop_ref)

lemma countFile0_loop_Some:
  "countFile0_loop bc p s bread (Some e) = (if e = EOF then None else Some e, bc)"
  by (subst countFile0_loop.simps) simp

lemma countFile0_loop_closed:
  "bread \<le> length p \<Longrightarrow>
   countFile0_loop bc p s bread None =
     (returned s,
      bc\<lparr>bytesRead0 := bytesRead0 bc + of_nat bread + of_nat (length (tallied (length p) s)),
         ones0 := ones0 bc + word_of_int (countOnes (take bread p)) + word_of_int (countOnes (tallied (length p) s))\<rparr>)"
proof (induction s arbitrary: bc bread p)
  case Nil
  show ?case
    by (subst countFile0_loop.simps) (simp add: countChunk0_eq countFile0_loop_Some)
next
  case (Cons r s)
  obtain d err where r: "r = (d, err)" by (cases r)
  show ?case
  proof (cases err)
    case None
    let ?n = "min (length d) (length p)"
    let ?p = "take ?n d @ drop ?n p"
    let ?bc = "bc\<lparr>ones0 := ones0 bc + word_of_int (countOnes (take bread p)),
                  bytesRead0 := bytesRead0 bc + of_nat bread\<rparr>"
    have len: "length ?p = length p" by simp
    have "?n \<le> length ?p" by simp
    from Cons.IH [OF this] have IH:
      "countFile0_loop ?bc ?p s ?n None =
        (returned s,
         ?bc\<lparr>bytesRead0 := bytesRead0 ?bc + of_nat ?n + of_nat (length (tallied (length ?p) s)),
            ones0 := ones0 ?bc + word_of_int (countOnes (take ?n ?p)) + word_of_int (countOnes (tallied (length ?p) s))\<rparr>)" .
    have tk: "take ?n ?p = take (length p) d" by (simp add: min_def)
    have st: "countFile0_loop bc p (r # s) bread None = countFile0_loop ?bc ?p s ?n None"
      by (subst countFile0_loop.simps) (simp add: r None countChunk0_eq Let_def)
    show ?thesis
      unfolding st IH using tk len
      by (simp add: r None Let_def min_def)
  next
    case (Some e)
    show ?thesis
      by (subst countFile0_loop.simps)
        (simp add: r Some countChunk0_eq Let_def countFile0_loop_Some)
  qed
qed

lemma countFile0_closed:
  "countFile0 bc s =
     (returned s,
      bc\<lparr>bytesRead0 := bytesRead0 bc + of_nat (length (tallied 1000 s)),
         ones0 := ones0 bc + word_of_int (countOnes (tallied 1000 s))\<rparr>)"
  using countFile0_loop_closed [of 0 "replicate 1000 0" bc s] by (simp add: countFile0_def)


lemma count_components:
  "fst (count root fsys (bc, out)) = None"
  "bytesRead (fst (snd (count root fsys (bc, out)))) =
     bytesRead bc + of_nat (length (scan_bytes (length (inbuf bc)) fsys))"
  "ones (fst (snd (count root fsys (bc, out)))) =
     ones bc + word_of_int (countOnes (scan_bytes (length (inbuf bc)) fsys))"
  "errs (fst (snd (count root fsys (bc, out)))) = errs bc @ map render (scan_failures root fsys)"
  "length (inbuf (fst (snd (count root fsys (bc, out))))) = length (inbuf bc)"
  "snd (snd (count root fsys (bc, out))) = out @ scan_files root fsys"
  using count_closed [of bc root fsys out] by auto

lemma buffer_after_delivered:
  "buffer_after p (delivered chunks @ (d, Some e) # rest) =
   buffer_after p (delivered chunks @ [(d, Some e)])"
  by (induction chunks arbitrary: p) (simp_all add: delivered_def Let_def)

lemma tallied_until_error:
  "\<forall>c\<in>set chunks. length c \<le> cap \<Longrightarrow>
   tallied cap (delivered chunks @ (d, Some e) # rest) = concat chunks"
  using tallied_delivered [of chunks cap "(d, Some e) # rest"] by simp

lemma returned_at_error:
  "returned (delivered chunks @ (d, Some e) # rest) = (if e = EOF then None else Some e)"
  using returned_delivered [of chunks "(d, Some e) # rest"] by simp

lemma countFile_stops:
  "countFile bc (delivered chunks @ (d, Some e) # rest) =
   countFile bc (delivered chunks @ [(d, Some e)])"
proof -
  have "tallied (length (inbuf bc)) (delivered chunks @ (d, Some e) # rest) =
        tallied (length (inbuf bc)) (delivered chunks @ [(d, Some e)])"
    by (induction chunks) (simp_all add: delivered_def)
  then show ?thesis
    by (simp add: countFile_closed returned_at_error buffer_after_delivered [of _ _ _ _ rest])
qed

lemma sint_add_in_range:
  fixes w :: goint
  assumes "- (2 ^ 63) \<le> sint w + k" and "sint w + k < 2 ^ 63"
  shows "sint (w + word_of_int k) = sint w + k"
proof -
  have "w + word_of_int k = word_of_int (sint w + k)"
    by simp
  then have "sint (w + word_of_int k) = signed_take_bit 63 (sint w + k)"
    by (simp only: sint_sbintrunc') simp
  also have "\<dots> = sint w + k"
    using assms by (intro signed_take_bit_int_eq_self) simp_all
  finally show ?thesis .
qed

lemma sint_folded:
  assumes ok: "totals_ok bc"
    and bound: "sint (bytesRead bc) + int (length B) < 2 ^ 60"
  shows "sint (bytesRead (folded bc B fs p)) = sint (bytesRead bc) + int (length B)"
    and "sint (ones (folded bc B fs p)) = sint (ones bc) + countOnes B"
proof -
  from ok have o: "0 \<le> sint (ones bc)" "sint (ones bc) \<le> sint (bytesRead bc) * 8"
    by (simp_all add: totals_ok_def)
  then have r: "0 \<le> sint (bytesRead bc)" by simp
  have c: "0 \<le> countOnes B" "countOnes B \<le> 8 * int (length B)"
    using countOnes_bounds [of B] by simp_all
  have "sint (bytesRead bc + word_of_int (int (length B))) = sint (bytesRead bc) + int (length B)"
    using r bound by (intro sint_add_in_range) simp_all
  then show "sint (bytesRead (folded bc B fs p)) = sint (bytesRead bc) + int (length B)"
    by simp
  have "sint (ones bc + word_of_int (countOnes B)) = sint (ones bc) + countOnes B"
    using o r c bound by (intro sint_add_in_range) simp_all
  then show "sint (ones (folded bc B fs p)) = sint (ones bc) + countOnes B"
    by simp
qed


lemma countFile_folded:
  "countFile bc s =
     (returned s, folded bc (tallied (length (inbuf bc)) s) [] (buffer_after (inbuf bc) s))"
  by (simp add: countFile_closed folded_def)



lemma failing_files_logged:
  "list_all fails (node_opens d) \<Longrightarrow>
     length (node_opens d) \<le> length (node_failures root name d)"
  "list_all fails (entries_opens ds) \<Longrightarrow>
     length (entries_opens ds) \<le> length (entries_failures root name ds)"
proof (induction root name d and root name ds rule: node_failures_entries_failures.induct)
  case (1 root name f)
  then show ?case by (cases f) auto
next
  case (2 root name)
  show ?case by simp
next
  case (3 root name rderr dirs)
  then show ?case by (cases rderr) simp_all
next
  case (4 root name)
  show ?case by simp
next
  case (5 root name elem d rest)
  then show ?case by fastforce
qed

lemma sublist_render: "sublist (failed_path f) (render f) \<and> sublist (failed_cause f) (render f)"
proof (cases f)
  case (WalkError path e)
  have "sublist path (''walk error for '' @ path @ '': '' @ Error e)"
    by (rule sublist_appendI)
  moreover have "sublist (Error e) ((''walk error for '' @ path @ '': '') @ Error e @ [])"
    by (rule sublist_appendI)
  ultimately show ?thesis using WalkError by simp
next
  case (NilEntry path)
  have "sublist path (''nil fs.DirEntry: '' @ path @ [])"
    by (rule sublist_appendI)
  moreover have "sublist ''nil fs.DirEntry'' ([] @ ''nil fs.DirEntry'' @ '': '' @ path)"
    by (rule sublist_appendI)
  ultimately show ?thesis using NilEntry by simp
next
  case (OpenError path cause)
  have "sublist path (''open '' @ path @ '': '' @ cause)"
    by (rule sublist_appendI)
  moreover have "sublist cause ((''open '' @ path @ '': '') @ cause @ [])"
    by (rule sublist_appendI)
  ultimately show ?thesis using OpenError by simp
next
  case (CountError path e)
  have "sublist path (''error counting file '' @ path @ '': '' @ Error e)"
    by (rule sublist_appendI)
  moreover have "sublist (Error e) ((''error counting file '' @ path @ '': '') @ Error e @ [])"
    by (rule sublist_appendI)
  ultimately show ?thesis using CountError by simp
qed


section \<open>The claims\<close>

text \<open>
  Claim C1. Let the reads of a stream deliver the chunks \<open>chunks\<close>, each within the
  buffer, and let the next read return an error \<open>e\<close> other than \<open>io.EOF\<close>, with
  whatever bytes \<open>d\<close>. Then \<open>countFile\<close> makes no further read (the reads \<open>rest\<close> that
  would follow have no influence), returns \<open>e\<close>, and leaves the bytes and one-bits of
  \<open>chunks\<close> in the totals. The callback of \<open>count\<close> appends one entry for the failure
  to the error log, keeps those totals, and returns \<open>nil\<close>, so that the walk goes on
  with the entries that follow.
\<close>

theorem partial_credit_on_read_failure:
  assumes "e \<noteq> EOF"
    and "\<forall>c\<in>set chunks. length c \<le> length (inbuf bc)"
    and "s = delivered chunks @ (d, Some e) # rest"
  shows "countFile bc s = countFile bc (delivered chunks @ [(d, Some e)]) \<and>
         fst (countFile bc s) = Some e \<and>
         bytesRead (snd (countFile bc s)) = bytesRead bc + of_nat (length (concat chunks)) \<and>
         ones (snd (countFile bc s)) = ones bc + word_of_int (countOnes (concat chunks)) \<and>
         walkFn root (bc, out) path (Some (RegularFile (Opens s))) None =
           (None,
            ((snd (countFile bc s))
               \<lparr>errs := errs bc @ [''error counting file '' @ fullPath root path @ '': '' @ Error e]\<rparr>,
             out @ [fullPath root path])) \<and>
         walkEntries (walkFn root) (bc, out) name ((elem, RegularFile (Opens s)) # entries) =
           walkEntries (walkFn root)
             (snd (walkFn root (bc, out) (Join name elem) (Some (RegularFile (Opens s))) None))
             name entries"
proof -
  have r: "returned s = Some e"
    using assms(1) by (simp add: assms(3) returned_at_error)
  have t: "tallied (length (inbuf bc)) s = concat chunks"
    using assms(2) by (simp add: assms(3) tallied_until_error)
  have w: "fst (walkFn root (bc, out) (Join name elem) (Some (RegularFile (Opens s))) None) = None"
    by (simp add: walkFn_def Let_def countFile_closed r)
  have 1: "countFile bc s = countFile bc (delivered chunks @ [(d, Some e)])"
    unfolding assms(3) by (rule countFile_stops)
  have 2: "fst (countFile bc s) = Some e"
    by (simp add: countFile_closed r)
  have 3: "bytesRead (snd (countFile bc s)) = bytesRead bc + of_nat (length (concat chunks))"
    by (simp add: countFile_closed t)
  have 4: "ones (snd (countFile bc s)) = ones bc + word_of_int (countOnes (concat chunks))"
    by (simp add: countFile_closed t)
  have 5: "walkFn root (bc, out) path (Some (RegularFile (Opens s))) None =
           (None,
            ((snd (countFile bc s))
               \<lparr>errs := errs bc @ [''error counting file '' @ fullPath root path @ '': '' @ Error e]\<rparr>,
             out @ [fullPath root path]))"
    by (simp add: walkFn_def Let_def countFile_closed r fullPath_def)
  have 6: "walkEntries (walkFn root) (bc, out) name ((elem, RegularFile (Opens s)) # entries) =
           walkEntries (walkFn root)
             (snd (walkFn root (bc, out) (Join name elem) (Some (RegularFile (Opens s))) None))
             name entries"
    using w by (cases "walkFn root (bc, out) (Join name elem) (Some (RegularFile (Opens s))) None") simp
  from 1 2 3 4 5 6 show ?thesis by blast
qed

theorem partial_credit_on_read_failure_witness:
  "fst (countFile \<lparr>bytesRead = 0, ones = 0, errs = [], inbuf = [0, 0]\<rparr>
     (delivered [[0xFF, 0x0F]] @ ([0x01], Some (Failure ''input/output error'')) # [([0x03], None)])) =
     Some (Failure ''input/output error'') \<and>
   bytesRead (snd (countFile \<lparr>bytesRead = 0, ones = 0, errs = [], inbuf = [0, 0]\<rparr>
     (delivered [[0xFF, 0x0F]] @ ([0x01], Some (Failure ''input/output error'')) # [([0x03], None)]))) = 2 \<and>
   ones (snd (countFile \<lparr>bytesRead = 0, ones = 0, errs = [], inbuf = [0, 0]\<rparr>
     (delivered [[0xFF, 0x0F]] @ ([0x01], Some (Failure ''input/output error'')) # [([0x03], None)]))) = 12 \<and>
   errs (fst (snd (walkFn ''/tmp'' (\<lparr>bytesRead = 0, ones = 0, errs = [], inbuf = [0, 0]\<rparr>, []) ''a.bin''
     (Some (RegularFile (Opens
        (delivered [[0xFF, 0x0F]] @ ([0x01], Some (Failure ''input/output error'')) # [([0x03], None)]))))
     None))) = [''error counting file /tmp/a.bin: input/output error'']"
proof -
  have "countOnes [0xFF, 0x0F] = 12" by code_simp
  then have c: "(word_of_int (countOnes [0xFF, 0x0F]) :: goint) = 12"
    by (simp only:) simp
  have h: "\<forall>c\<in>set [[0xFF, 0x0F :: byte]].
             length c \<le> length (inbuf \<lparr>bytesRead = 0, ones = 0, errs = [], inbuf = [0, 0]\<rparr>)"
    by simp
  have n: "Failure ''input/output error'' \<noteq> EOF" by simp
  note T = partial_credit_on_read_failure [OF n h refl, where d = "[0x01]" and rest = "[([0x03], None)]"
        and root = "''/tmp''" and out = "[]" and path = "''a.bin''" and name = "''.''"
        and elem = "''a.bin''" and entries = "[]"]
  from T [THEN conjunct2, THEN conjunct1]
       T [THEN conjunct2, THEN conjunct2, THEN conjunct1]
       T [THEN conjunct2, THEN conjunct2, THEN conjunct2, THEN conjunct1]
       T [THEN conjunct2, THEN conjunct2, THEN conjunct2, THEN conjunct2, THEN conjunct1] c
  show ?thesis
    by (simp add: fullPath_def)
qed

text \<open>
  Claim C2. For every way of cutting a byte sequence into chunks that the reads of a
  stream deliver (each chunk within the buffer), \<open>countFile\<close> returns \<open>nil\<close> and adds to
  the totals the reference population count and the length of the concatenation. Two
  ways of cutting the same bytes, for instance into one chunk and into many, give the
  same totals, and so does a final read that reports the end of the stream. The
  additions are those of Go's \<open>int\<close>; while fewer than \<open>2 ^ 60\<close> bytes have been read
  the counters are, as integers, the old values plus that count and that length.
\<close>

theorem chunking_invariance:
  assumes "\<forall>c\<in>set chunks. length c \<le> length (inbuf bc)"
    and "\<forall>c\<in>set chunks'. length c \<le> length (inbuf bc)"
    and "concat chunks' = concat chunks"
  shows "fst (countFile bc (delivered chunks)) = None \<and>
         ones (snd (countFile bc (delivered chunks))) = ones bc + word_of_int (countOnes (concat chunks)) \<and>
         bytesRead (snd (countFile bc (delivered chunks))) =
           bytesRead bc + of_nat (length (concat chunks)) \<and>
         ones (snd (countFile bc (delivered chunks'))) =
           ones (snd (countFile bc (delivered chunks))) \<and>
         bytesRead (snd (countFile bc (delivered chunks'))) =
           bytesRead (snd (countFile bc (delivered chunks))) \<and>
         ones (snd (countFile bc (delivered chunks @ [at_end]))) =
           ones (snd (countFile bc (delivered chunks))) \<and>
         bytesRead (snd (countFile bc (delivered chunks @ [at_end]))) =
           bytesRead (snd (countFile bc (delivered chunks))) \<and>
         (totals_ok bc \<and> sint (bytesRead bc) + int (length (concat chunks)) < 2 ^ 60 \<longrightarrow>
            sint (ones (snd (countFile bc (delivered chunks)))) =
              sint (ones bc) + countOnes (concat chunks) \<and>
            sint (bytesRead (snd (countFile bc (delivered chunks)))) =
              sint (bytesRead bc) + int (length (concat chunks)))"
proof -
  have a: "tallied (length (inbuf bc)) (delivered chunks) = concat chunks"
    using tallied_delivered [OF assms(1), of "[]"] by simp
  have b: "tallied (length (inbuf bc)) (delivered chunks') = concat chunks"
    using tallied_delivered [OF assms(2), of "[]"] assms(3) by simp
  have c: "tallied (length (inbuf bc)) (delivered chunks @ [at_end]) = concat chunks"
    using tallied_delivered [OF assms(1), of "[at_end]"] by (simp add: at_end_def)
  have d: "returned (delivered chunks) = None"
    using returned_delivered [of chunks "[]"] by simp
  have e: "totals_ok bc \<and> sint (bytesRead bc) + int (length (concat chunks)) < 2 ^ 60 \<longrightarrow>
            sint (ones (snd (countFile bc (delivered chunks)))) =
              sint (ones bc) + countOnes (concat chunks) \<and>
            sint (bytesRead (snd (countFile bc (delivered chunks)))) =
              sint (bytesRead bc) + int (length (concat chunks))"
    using sint_folded [of bc "concat chunks" "[]" "buffer_after (inbuf bc) (delivered chunks)"]
    by (simp add: countFile_folded a)
  have "fst (countFile bc (delivered chunks)) = None \<and>
         ones (snd (countFile bc (delivered chunks))) =
           ones bc + word_of_int (countOnes (concat chunks)) \<and>
         bytesRead (snd (countFile bc (delivered chunks))) =
           bytesRead bc + of_nat (length (concat chunks)) \<and>
         ones (snd (countFile bc (delivered chunks'))) =
           ones (snd (countFile bc (delivered chunks))) \<and>
         bytesRead (snd (countFile bc (delivered chunks'))) =
           bytesRead (snd (countFile bc (delivered chunks))) \<and>
         ones (snd (countFile bc (delivered chunks @ [at_end]))) =
           ones (snd (countFile bc (delivered chunks))) \<and>
         bytesRead (snd (countFile bc (delivered chunks @ [at_end]))) =
           bytesRead (snd (countFile bc (delivered chunks)))"
    by (simp add: countFile_closed a b c d)
  with e show ?thesis by blast
qed

theorem chunking_invariance_witness:
  "ones (snd (countFile \<lparr>bytesRead = 0, ones = 0, errs = [], inbuf = [0, 0, 0]\<rparr>
                (delivered [[0xFF, 0x01], [0x0F]]))) = 13 \<and>
   bytesRead (snd (countFile \<lparr>bytesRead = 0, ones = 0, errs = [], inbuf = [0, 0, 0]\<rparr>
                (delivered [[0xFF, 0x01], [0x0F]]))) = 3 \<and>
   ones (snd (countFile \<lparr>bytesRead = 0, ones = 0, errs = [], inbuf = [0, 0, 0]\<rparr>
                (delivered [[0xFF], [0x01, 0x0F]]))) = 13 \<and>
   bytesRead (snd (countFile \<lparr>bytesRead = 0, ones = 0, errs = [], inbuf = [0, 0, 0]\<rparr>
                (delivered [[0xFF], [0x01, 0x0F]]))) = 3 \<and>
   sint (ones (snd (countFile \<lparr>bytesRead = 0, ones = 0, errs = [], inbuf = [0, 0, 0]\<rparr>
                (delivered [[0xFF, 0x01], [0x0F]])))) = 13 \<and>
   sint (bytesRead (snd (countFile \<lparr>bytesRead = 0, ones = 0, errs = [], inbuf = [0, 0, 0]\<rparr>
                (delivered [[0xFF, 0x01], [0x0F]])))) = 3"
proof -
  let ?bc = "\<lparr>bytesRead = 0, ones = 0, errs = [], inbuf = [0, 0, 0]\<rparr>"
  have k: "countOnes [0xFF, 0x01, 0x0F] = 13" by code_simp
  then have c: "(word_of_int (countOnes [0xFF, 0x01, 0x0F]) :: goint) = 13"
    by (simp only:) simp
  have h1: "\<forall>c\<in>set [[0xFF, 0x01], [0x0F :: byte]]. length c \<le> length (inbuf ?bc)"
    by simp
  have h2: "\<forall>c\<in>set [[0xFF], [0x01, 0x0F :: byte]]. length c \<le> length (inbuf ?bc)"
    by simp
  have h3: "concat [[0xFF], [0x01, 0x0F :: byte]] = concat [[0xFF, 0x01], [0x0F]]"
    by simp
  have ok: "totals_ok ?bc \<and>
            sint (bytesRead ?bc) + int (length (concat [[0xFF, 0x01], [0x0F :: byte]])) < 2 ^ 60"
    by (simp add: totals_ok_def)
  note T = chunking_invariance [OF h1 h2 h3]
  from T [THEN conjunct2, THEN conjunct1] c
  have 1: "ones (snd (countFile ?bc (delivered [[0xFF, 0x01], [0x0F]]))) = 13"
    by simp
  from T [THEN conjunct2, THEN conjunct2, THEN conjunct1]
  have 2: "bytesRead (snd (countFile ?bc (delivered [[0xFF, 0x01], [0x0F]]))) = 3"
    by simp
  from T [THEN conjunct2, THEN conjunct2, THEN conjunct2, THEN conjunct1] 1
  have 3: "ones (snd (countFile ?bc (delivered [[0xFF], [0x01, 0x0F]]))) = 13"
    by simp
  from T [THEN conjunct2, THEN conjunct2, THEN conjunct2, THEN conjunct2, THEN conjunct1] 2
  have 4: "bytesRead (snd (countFile ?bc (delivered [[0xFF], [0x01, 0x0F]]))) = 3"
    by simp
  from T [THEN conjunct2, THEN conjunct2, THEN conjunct2, THEN conjunct2, THEN conjunct2,
          THEN conjunct2, THEN conjunct2, THEN mp, OF ok] k
  have 5: "sint (ones (snd (countFile ?bc (delivered [[0xFF, 0x01], [0x0F]])))) = 13 \<and>
           sint (bytesRead (snd (countFile ?bc (delivered [[0xFF, 0x01], [0x0F]])))) = 3"
    by simp
  from 1 2 3 4 5 show ?thesis by blast
qed

text \<open>
  Claim C3. For every byte, the clear-lowest-set-bit loop ends (\<open>popcount_loop\<close> is a
  total function, defined by recursion on the value of the byte) and returns the count
  it was started with plus the number of one-bits of the byte; started with 0, as it is
  in \<open>countFile\<close>, it returns the population count, as a word and as the integer that
  the word stands for. \<open>0xFF\<close> gives 8, \<open>0x00\<close> gives 0, \<open>0xAA\<close> and \<open>0x55\<close> give 4
  each.
\<close>

theorem popcount_loop_correct:
  "popcount_loop b c = c + of_nat (popcount_ref b) \<and>
   popcount_loop b 0 = of_nat (popcount_ref b) \<and>
   sint (popcount_loop b 0) = int (popcount_ref b) \<and>
   popcount_loop 0xFF 0 = 8 \<and> popcount_loop 0x00 0 = 0 \<and>
   popcount_loop 0xAA 0 = 4 \<and> popcount_loop 0x55 0 = 4"
proof -
  have 1: "popcount_loop b c = c + of_nat (popcount_ref b)"
    by (rule popcount_loop_ref)
  have 2: "popcount_loop b 0 = of_nat (popcount_ref b)"
    by (simp add: popcount_loop_ref)
  have "sint (0 + word_of_int (int (popcount_ref b)) :: goint) = sint (0 :: goint) + int (popcount_ref b)"
    using popcount_ref_le [of b] by (intro sint_add_in_range) simp_all
  then have 3: "sint (popcount_loop b 0) = int (popcount_ref b)"
    by (simp add: popcount_loop_ref)
  have 4: "popcount_loop 0xFF 0 = 8" by code_simp
  have 5: "popcount_loop 0x00 0 = 0" by code_simp
  have 6: "popcount_loop 0xAA 0 = 4" by code_simp
  have 7: "popcount_loop 0x55 0 = 4" by code_simp
  from 1 2 3 4 5 6 7 show ?thesis by blast
qed

text \<open>
  Claim C4. \<open>count\<close> returns \<open>nil\<close> for every root and every file system, whatever
  fails below the root; failures show in the error log and nowhere else. The log after
  the scan is the log before followed by one entry for each failure of the scan, so it
  is not empty when anything failed; when every regular file below the root fails, it
  has grown by at least one entry per file. For a root that does not exist (the \<open>Stat\<close>
  that starts the walk fails) a fresh accumulator ends with exactly one log entry,
  which contains \<open>walk error\<close>, and with both totals 0.
\<close>

theorem count_returns_nil:
  "fst (count root fsys (bc, out)) = None \<and>
   errs (fst (snd (count root fsys (bc, out)))) = errs bc @ map render (scan_failures root fsys) \<and>
   (scan_failures root fsys \<noteq> [] \<longrightarrow> errs (fst (snd (count root fsys (bc, out)))) \<noteq> []) \<and>
   (list_all fails (scan_opens fsys) \<longrightarrow>
      length (errs bc) + length (scan_opens fsys)
        \<le> length (errs (fst (snd (count root fsys (bc, out)))))) \<and>
   (list_all fails (scan_opens fsys) \<and> scan_opens fsys \<noteq> [] \<longrightarrow>
      errs (fst (snd (count root fsys (bc, out)))) \<noteq> []) \<and>
   count root (Inl e) (fresh, out) =
     (None, (fresh\<lparr>errs := [''walk error for .: '' @ Error e]\<rparr>, out)) \<and>
   length (errs (fst (snd (count root (Inl e) (fresh, out))))) = 1 \<and>
   sublist ''walk error'' (hd (errs (fst (snd (count root (Inl e) (fresh, out)))))) \<and>
   bytesRead (fst (snd (count root (Inl e) (fresh, out)))) = 0 \<and>
   ones (fst (snd (count root (Inl e) (fresh, out)))) = 0"
proof -
  let ?log = "errs (fst (snd (count root fsys (bc, out))))"
  have 1: "fst (count root fsys (bc, out)) = None"
    by (rule count_components)
  have a: "?log = errs bc @ map render (scan_failures root fsys)"
    by (rule count_components)
  then have b: "scan_failures root fsys \<noteq> [] \<longrightarrow> ?log \<noteq> []"
    by simp
  have len: "list_all fails (scan_opens fsys) \<Longrightarrow>
             length (scan_opens fsys) \<le> length (scan_failures root fsys)"
    by (cases fsys) (simp_all add: failing_files_logged)
  have c: "list_all fails (scan_opens fsys) \<longrightarrow>
      length (errs bc) + length (scan_opens fsys) \<le> length ?log"
    using len by (simp add: a)
  have d: "list_all fails (scan_opens fsys) \<and> scan_opens fsys \<noteq> [] \<longrightarrow> ?log \<noteq> []"
  proof
    assume h: "list_all fails (scan_opens fsys) \<and> scan_opens fsys \<noteq> []"
    then have "0 < length (scan_opens fsys)" by simp
    with c h have "0 < length ?log" by linarith
    then show "?log \<noteq> []" by simp
  qed
  have 2: "count root (Inl e) (fresh, out) =
     (None, (fresh\<lparr>errs := [''walk error for .: '' @ Error e]\<rparr>, out))"
    by (simp add: count_def WalkDir_def walkFn_def fresh_def)
  have "sublist ''walk error'' ([] @ ''walk error'' @ ('' for .: '' @ Error e))"
    by (rule sublist_appendI)
  then have 3: "sublist ''walk error'' (hd (errs (fst (snd (count root (Inl e) (fresh, out))))))"
    by (simp add: 2)
  have 4: "length (errs (fst (snd (count root (Inl e) (fresh, out))))) = 1"
    by (simp add: 2)
  have 5: "bytesRead (fst (snd (count root (Inl e) (fresh, out)))) = 0"
    by (simp add: 2) (simp add: fresh_def)
  have 6: "ones (fst (snd (count root (Inl e) (fresh, out)))) = 0"
    by (simp add: 2) (simp add: fresh_def)
  from 1 a b c d 2 3 4 5 6 show ?thesis by blast
qed

theorem count_returns_nil_witness:
  "fst (count ''/data''
     (Inr (Directory None
        [(''a'', RegularFile (OpenFails ''permission denied'')),
         (''b'', RegularFile (Opens [([0x01], Some (Failure ''input/output error''))]))]))
     (\<lparr>bytesRead = 0, ones = 0, errs = [], inbuf = [0, 0]\<rparr>, [])) = None \<and>
   list_all fails (scan_opens
     (Inr (Directory None
        [(''a'', RegularFile (OpenFails ''permission denied'')),
         (''b'', RegularFile (Opens [([0x01], Some (Failure ''input/output error''))]))]))) \<and>
   errs (fst (snd (count ''/data''
     (Inr (Directory None
        [(''a'', RegularFile (OpenFails ''permission denied'')),
         (''b'', RegularFile (Opens [([0x01], Some (Failure ''input/output error''))]))]))
     (\<lparr>bytesRead = 0, ones = 0, errs = [], inbuf = [0, 0]\<rparr>, [])))) =
     [''open /data/a: permission denied'',
      ''error counting file /data/b: input/output error''] \<and>
   2 \<le> length (errs (fst (snd (count ''/data''
     (Inr (Directory None
        [(''a'', RegularFile (OpenFails ''permission denied'')),
         (''b'', RegularFile (Opens [([0x01], Some (Failure ''input/output error''))]))]))
     (\<lparr>bytesRead = 0, ones = 0, errs = [], inbuf = [0, 0]\<rparr>, []))))) \<and>
   errs (fst (snd (count ''/this/path/does/not/exist''
     (Inl (Failure ''stat .: no such file or directory'')) (fresh, [])))) =
     [''walk error for .: stat .: no such file or directory'']"
proof -
  let ?fs = "Inr (Directory None
        [(''a'', RegularFile (OpenFails ''permission denied'')),
         (''b'', RegularFile (Opens [([0x01], Some (Failure ''input/output error''))]))])"
  let ?bc = "\<lparr>bytesRead = 0, ones = 0, errs = [], inbuf = [0, 0]\<rparr>"
  note T = count_returns_nil [where root = "''/data''" and fsys = ?fs and bc = ?bc and out = "[]"]
  note U = count_returns_nil [where root = "''/this/path/does/not/exist''"
      and e = "Failure ''stat .: no such file or directory''" and out = "[]"]
  have h: "list_all fails (scan_opens ?fs)"
    by simp
  have 1: "fst (count ''/data'' ?fs (?bc, [])) = None"
    by (rule T [THEN conjunct1])
  from T [THEN conjunct2, THEN conjunct1]
  have 2: "errs (fst (snd (count ''/data'' ?fs (?bc, [])))) =
     [''open /data/a: permission denied'',
      ''error counting file /data/b: input/output error'']"
    by (simp add: Join_def fullPath_def)
  from h T [THEN conjunct2, THEN conjunct2, THEN conjunct2, THEN conjunct1]
  have 3: "2 \<le> length (errs (fst (snd (count ''/data'' ?fs (?bc, [])))))"
    by simp
  from U [THEN conjunct2, THEN conjunct2, THEN conjunct2, THEN conjunct2, THEN conjunct2,
          THEN conjunct1]
  have 4: "errs (fst (snd (count ''/this/path/does/not/exist''
     (Inl (Failure ''stat .: no such file or directory'')) (fresh, [])))) =
     [''walk error for .: stat .: no such file or directory'']"
    by simp
  from h 1 2 3 4 show ?thesis by blast
qed

text \<open>
  Claim C5, as stated: a root that cannot be used to start the traversal makes the run
  abort. It does not. The failure of the first \<open>Stat\<close> is handed to the callback, which
  logs it and returns \<open>nil\<close>; \<open>count\<close> returns \<open>nil\<close> and \<open>main\<close> goes on to the report.
\<close>

theorem unusable_root_does_not_abort:
  "main (Inl (Failure ''stat .: no such file or directory'')) =
     Report (fresh\<lparr>errs := [''walk error for .: stat .: no such file or directory'']\<rparr>) [] \<and>
   main (Inl (Failure ''stat .: no such file or directory'')) \<noteq>
     Panic (Failure ''stat .: no such file or directory'')"
  by (simp add: main_def count_def WalkDir_def walkFn_def fresh_def)

text \<open>
  Claim C5, amended. \<open>main\<close> panics exactly when \<open>count\<close> returns an error, and \<open>count\<close>
  returns none: the callback returns \<open>nil\<close> on every path and \<open>fs.WalkDir\<close> has no
  error of its own. So no run aborts. A root that cannot be used is logged as one walk
  error, every failure below the root is logged, and \<open>main\<close> reaches the report with
  the accumulator and the output that \<open>count\<close> left.
\<close>

theorem main_reports:
  "fst (count ''.'' fsys (fresh, [])) = None \<and>
   main fsys = Report (fst (snd (count ''.'' fsys (fresh, []))))
                 (snd (snd (count ''.'' fsys (fresh, [])))) \<and>
   main fsys \<noteq> Panic err \<and>
   errs (fst (snd (count ''.'' fsys (fresh, [])))) = map render (scan_failures ''.'' fsys) \<and>
   main (Inl e) = Report (fresh\<lparr>errs := [''walk error for .: '' @ Error e]\<rparr>) []"
proof -
  have 1: "fst (count ''.'' fsys (fresh, [])) = None"
    by (rule count_components)
  then have 2: "main fsys = Report (fst (snd (count ''.'' fsys (fresh, []))))
                 (snd (snd (count ''.'' fsys (fresh, []))))"
    by (cases "count ''.'' fsys (fresh, [])") (auto simp: main_def)
  then have 3: "main fsys \<noteq> Panic err"
    by simp
  have 4: "errs (fst (snd (count ''.'' fsys (fresh, [])))) = map render (scan_failures ''.'' fsys)"
    by (simp add: count_components) (simp add: fresh_def)
  have 5: "main (Inl e) = Report (fresh\<lparr>errs := [''walk error for .: '' @ Error e]\<rparr>) []"
    by (simp add: main_def count_def WalkDir_def walkFn_def fresh_def)
  from 1 2 3 4 5 show ?thesis by blast
qed

theorem main_reports_witness:
  "main (Inr (Directory (Some (Failure ''permission denied''))
        [(''a'', RegularFile (OpenFails ''permission denied''))])) \<noteq> Panic (Failure ''permission denied'') \<and>
   errs (fst (snd (count ''.''
     (Inr (Directory (Some (Failure ''permission denied''))
        [(''a'', RegularFile (OpenFails ''permission denied''))])) (fresh, [])))) =
     [''walk error for .: permission denied'', ''open ./a: permission denied'']"
proof -
  note T = main_reports [where fsys = "Inr (Directory (Some (Failure ''permission denied''))
        [(''a'', RegularFile (OpenFails ''permission denied''))])"
      and err = "Failure ''permission denied''"]
  from T [THEN conjunct2, THEN conjunct2, THEN conjunct1]
       T [THEN conjunct2, THEN conjunct2, THEN conjunct2, THEN conjunct1]
  show ?thesis by (simp add: Join_def fullPath_def)
qed




text \<open>
  Claim C7. Every failure met during a scan gives exactly one entry in the error log,
  and nothing else is logged: the log after \<open>count\<close> is the log before, followed by
  one entry for each failure of the scan, in the order of the walk. The same holds for
  each call of the callback: an error reported by the traversal, a nil entry, a file
  that cannot be opened and a stream that fails give one entry each; an entry that is
  not a regular file gives none. Every entry contains the path it concerns and the
  cause of the failure.
\<close>

theorem every_failure_logged_once:
  "errs (fst (snd (count root fsys (bc, out)))) = errs bc @ map render (scan_failures root fsys) \<and>
   length (errs (fst (snd (count root fsys (bc, out))))) =
     length (errs bc) + length (scan_failures root fsys) \<and>
   errs (fst (snd (walkFn root (bc, out) path d (Some e)))) =
     errs bc @ [render (WalkError path e)] \<and>
   errs (fst (snd (walkFn root (bc, out) path None None))) =
     errs bc @ [render (NilEntry path)] \<and>
   errs (fst (snd (walkFn root (bc, out) path (Some (RegularFile (OpenFails cause))) None))) =
     errs bc @ [render (OpenError (fullPath root path) cause)] \<and>
   errs (fst (snd (walkFn root (bc, out) path (Some (RegularFile (Opens s))) None))) =
     errs bc @ (case returned s of
                  None \<Rightarrow> []
                | Some ce \<Rightarrow> [render (CountError (fullPath root path) ce)]) \<and>
   errs (fst (snd (walkFn root (bc, out) path (Some Irregular) None))) = errs bc \<and>
   errs (fst (snd (walkFn root (bc, out) path (Some (Directory rderr dirs)) None))) = errs bc \<and>
   sublist (failed_path f) (render f) \<and> sublist (failed_cause f) (render f)"
proof -
  have 1: "errs (fst (snd (count root fsys (bc, out)))) =
           errs bc @ map render (scan_failures root fsys)"
    by (rule count_components)
  then have 2: "length (errs (fst (snd (count root fsys (bc, out))))) =
     length (errs bc) + length (scan_failures root fsys)"
    by simp
  have 3: "errs (fst (snd (walkFn root (bc, out) path d (Some e)))) =
     errs bc @ [render (WalkError path e)]"
    by (simp add: walkFn_def)
  have 4: "errs (fst (snd (walkFn root (bc, out) path None None))) =
     errs bc @ [render (NilEntry path)]"
    by (simp add: walkFn_def)
  have 5: "errs (fst (snd (walkFn root (bc, out) path (Some (RegularFile (OpenFails cause))) None))) =
     errs bc @ [render (OpenError (fullPath root path) cause)]"
    by (simp add: walkFn_def fullPath_def Let_def)
  have 6: "errs (fst (snd (walkFn root (bc, out) path (Some (RegularFile (Opens s))) None))) =
     errs bc @ (case returned s of
                  None \<Rightarrow> []
                | Some ce \<Rightarrow> [render (CountError (fullPath root path) ce)])"
    by (cases "returned s") (simp_all add: walkFn_def fullPath_def Let_def countFile_closed)
  have 7: "errs (fst (snd (walkFn root (bc, out) path (Some Irregular) None))) = errs bc"
    by (simp add: walkFn_def)
  have 8: "errs (fst (snd (walkFn root (bc, out) path (Some (Directory rderr dirs)) None))) = errs bc"
    by (simp add: walkFn_def)
  from 1 2 3 4 5 6 7 8 sublist_render [of f] show ?thesis by blast
qed

theorem every_failure_logged_once_witness:
  "errs (fst (snd (count ''/data''
      (Inr (Directory None
         [(''a'', RegularFile (OpenFails ''permission denied'')),
          (''b'', RegularFile (Opens [([0x01], None), ([], Some (Failure ''input/output error''))])),
          (''c'', RegularFile (Opens [([0x01], None), ([], Some EOF)])),
          (''d'', Directory (Some (Failure ''permission denied'')) []),
          (''e'', Irregular)]))
      (\<lparr>bytesRead = 0, ones = 0, errs = [], inbuf = [0, 0]\<rparr>, [])))) =
   [''open /data/a: permission denied'',
    ''error counting file /data/b: input/output error'',
    ''walk error for d: permission denied'']"
proof -
  note T = every_failure_logged_once [where root = "''/data''" and out = "[]"
      and bc = "\<lparr>bytesRead = 0, ones = 0, errs = [], inbuf = [0, 0]\<rparr>"
      and fsys = "Inr (Directory None
         [(''a'', RegularFile (OpenFails ''permission denied'')),
          (''b'', RegularFile (Opens [([0x01], None), ([], Some (Failure ''input/output error''))])),
          (''c'', RegularFile (Opens [([0x01], None), ([], Some EOF)])),
          (''d'', Directory (Some (Failure ''permission denied'')) []),
          (''e'', Irregular)])"]
  from T [THEN conjunct1] show ?thesis
    by (simp add: Join_def fullPath_def)
qed

text \<open>
  Claim C8. Scanning the directory of the scenario with a fresh accumulator, under any
  root, returns \<open>nil\<close> with \<open>ones = 33\<close>, \<open>bytesRead = 8\<close> and an empty error log, after
  visiting the four files in the order of their names. A file without bytes leaves the
  accumulator as it was and returns \<open>nil\<close>; the callback leaves the accumulator as it
  was for a directory.
\<close>

theorem scenario_totals:
  "fst (count root (Inr testdir) (fresh, [])) = None \<and>
   ones (fst (snd (count root (Inr testdir) (fresh, [])))) = 33 \<and>
   bytesRead (fst (snd (count root (Inr testdir) (fresh, [])))) = 8 \<and>
   errs (fst (snd (count root (Inr testdir) (fresh, [])))) = [] \<and>
   snd (snd (count root (Inr testdir) (fresh, []))) =
     [root @ ''/empty.txt'', root @ ''/file1.txt'', root @ ''/file2.bin'',
      root @ ''/subdir/subfile.txt''] \<and>
   countFile bc [at_end] = (None, bc) \<and>
   countFile bc [] = (None, bc) \<and>
   walkFn root (bc, out) path (Some (Directory rderr dirs)) None = (None, (bc, out))"
proof -
  have cap: "length (inbuf fresh) = 1000000"
    by (simp add: fresh_def BUFF_SIZE_def)
  have bytes: "scan_bytes 1000000 (Inr testdir) = hello @ [0xFF, 0x00, 0xAA]"
    by (simp add: testdir_def at_end_def hello_def)
  have c: "countOnes (hello @ [0xFF, 0x00, 0xAA]) = 33"
    by code_simp
  have l: "length (hello @ [0xFF, 0x00, 0xAA]) = 8"
    by (simp add: hello_def)
  have f: "scan_failures root (Inr testdir) = []"
    by (simp add: testdir_def at_end_def)
  have 1: "fst (count root (Inr testdir) (fresh, [])) = None"
    by (rule count_components)
  have 2: "ones (fst (snd (count root (Inr testdir) (fresh, [])))) = 33"
    unfolding count_components cap bytes c by (simp add: fresh_def)
  have 3: "bytesRead (fst (snd (count root (Inr testdir) (fresh, [])))) = 8"
    unfolding count_components cap bytes l by (simp add: fresh_def)
  have 4: "errs (fst (snd (count root (Inr testdir) (fresh, [])))) = []"
    unfolding count_components f by (simp add: fresh_def)
  have 5: "snd (snd (count root (Inr testdir) (fresh, []))) =
     [root @ ''/empty.txt'', root @ ''/file1.txt'', root @ ''/file2.bin'',
      root @ ''/subdir/subfile.txt'']"
    unfolding count_components by (simp add: testdir_def Join_def fullPath_def)
  have 6: "countFile bc [at_end] = (None, bc)"
    by (simp add: countFile_closed at_end_def)
  have 7: "countFile bc [] = (None, bc)"
    by (simp add: countFile_closed)
  have 8: "walkFn root (bc, out) path (Some (Directory rderr dirs)) None = (None, (bc, out))"
    by (simp add: walkFn_def)
  from 1 2 3 4 5 6 7 8 show ?thesis by blast
qed

theorem scenario_totals_witness:
  "ones (fst (snd (count ''/tmp/bitcount_test_dir'' (Inr testdir) (fresh, [])))) = 33 \<and>
   bytesRead (fst (snd (count ''/tmp/bitcount_test_dir'' (Inr testdir) (fresh, [])))) = 8 \<and>
   snd (snd (count ''/tmp/bitcount_test_dir'' (Inr testdir) (fresh, []))) =
     [''/tmp/bitcount_test_dir/empty.txt'', ''/tmp/bitcount_test_dir/file1.txt'',
      ''/tmp/bitcount_test_dir/file2.bin'', ''/tmp/bitcount_test_dir/subdir/subfile.txt'']"
proof -
  note T = scenario_totals [where root = "''/tmp/bitcount_test_dir''"]
  from T [THEN conjunct2, THEN conjunct1]
       T [THEN conjunct2, THEN conjunct2, THEN conjunct1]
       T [THEN conjunct2, THEN conjunct2, THEN conjunct2, THEN conjunct2, THEN conjunct1]
  show ?thesis by simp
qed

text \<open>
  Claim C9. A chunk is counted only if the read that gave it returned \<open>nil\<close>. When a
  read returns bytes \<open>d\<close> together with an error, the totals hold the chunks delivered
  before and nothing of \<open>d\<close>, however many bytes it has: on \<open>io.EOF\<close> the loop ends and
  \<open>countFile\<close> returns \<open>nil\<close>, on any other error it returns that error. This holds for
  \<open>countFile\<close> and for the earlier \<open>countFile0\<close> with its buffer of 1000 bytes.
\<close>

theorem bytes_read_with_error_not_counted:
  assumes "\<forall>c\<in>set chunks. length c \<le> length (inbuf bc)"
    and "\<forall>c\<in>set chunks0. length c \<le> 1000"
  shows "fst (countFile bc (delivered chunks @ (d, Some e) # rest)) =
           (if e = EOF then None else Some e) \<and>
         bytesRead (snd (countFile bc (delivered chunks @ (d, Some e) # rest))) =
           bytesRead bc + of_nat (length (concat chunks)) \<and>
         ones (snd (countFile bc (delivered chunks @ (d, Some e) # rest))) =
           ones bc + word_of_int (countOnes (concat chunks)) \<and>
         fst (countFile0 bc0 (delivered chunks0 @ (d, Some e) # rest)) =
           (if e = EOF then None else Some e) \<and>
         bytesRead0 (snd (countFile0 bc0 (delivered chunks0 @ (d, Some e) # rest))) =
           bytesRead0 bc0 + of_nat (length (concat chunks0)) \<and>
         ones0 (snd (countFile0 bc0 (delivered chunks0 @ (d, Some e) # rest))) =
           ones0 bc0 + word_of_int (countOnes (concat chunks0))"
proof -
  let ?s = "delivered chunks @ (d, Some e) # rest"
  let ?t = "delivered chunks0 @ (d, Some e) # rest"
  have t: "tallied (length (inbuf bc)) ?s = concat chunks"
    using assms(1) by (rule tallied_until_error)
  have t0: "tallied 1000 ?t = concat chunks0"
    using assms(2) by (rule tallied_until_error)
  have 1: "fst (countFile bc ?s) = (if e = EOF then None else Some e)"
    by (simp add: countFile_closed returned_at_error)
  have 2: "bytesRead (snd (countFile bc ?s)) = bytesRead bc + of_nat (length (concat chunks))"
    by (simp add: countFile_closed t)
  have 3: "ones (snd (countFile bc ?s)) = ones bc + word_of_int (countOnes (concat chunks))"
    by (simp add: countFile_closed t)
  have 4: "fst (countFile0 bc0 ?t) = (if e = EOF then None else Some e)"
    by (simp add: countFile0_closed returned_at_error)
  have 5: "bytesRead0 (snd (countFile0 bc0 ?t)) = bytesRead0 bc0 + of_nat (length (concat chunks0))"
    by (simp add: countFile0_closed t0)
  have 6: "ones0 (snd (countFile0 bc0 ?t)) = ones0 bc0 + word_of_int (countOnes (concat chunks0))"
    by (simp add: countFile0_closed t0)
  from 1 2 3 4 5 6 show ?thesis by blast
qed

theorem bytes_read_with_error_not_counted_witness:
  "countFile \<lparr>bytesRead = 0, ones = 0, errs = [], inbuf = [0, 0]\<rparr>
     (delivered [[0x0F]] @ ([0xFF, 0xFF], Some EOF) # []) =
     (None, \<lparr>bytesRead = 1, ones = 4, errs = [], inbuf = [0xFF, 0xFF]\<rparr>) \<and>
   bytesRead (snd (countFile \<lparr>bytesRead = 0, ones = 0, errs = [], inbuf = [0, 0]\<rparr>
     (delivered [[0x0F]] @ ([0xFF, 0xFF], Some EOF) # []))) = 1 \<and>
   ones (snd (countFile \<lparr>bytesRead = 0, ones = 0, errs = [], inbuf = [0, 0]\<rparr>
     (delivered [[0x0F]] @ ([0xFF, 0xFF], Some EOF) # []))) = 4 \<and>
   bytesRead0 (snd (countFile0 \<lparr>bytesRead0 = 0, ones0 = 0\<rparr>
     (delivered [[0x0F]] @ ([0xFF, 0xFF], Some EOF) # []))) = 1 \<and>
   ones0 (snd (countFile0 \<lparr>bytesRead0 = 0, ones0 = 0\<rparr>
     (delivered [[0x0F]] @ ([0xFF, 0xFF], Some EOF) # []))) = 4"
proof -
  have c: "countOnes [0x0F] = 4" by code_simp
  have h: "\<forall>c\<in>set [[0x0F :: byte]].
             length c \<le> length (inbuf \<lparr>bytesRead = 0, ones = 0, errs = [], inbuf = [0, 0]\<rparr>)"
    by simp
  have h0: "\<forall>c\<in>set [[0x0F :: byte]]. length c \<le> 1000"
    by simp
  note T = bytes_read_with_error_not_counted [OF h h0, where d = "[0xFF, 0xFF]" and e = EOF
      and rest = "[]" and ?bc0.0 = "\<lparr>bytesRead0 = 0, ones0 = 0\<rparr>"]
  have run: "countFile \<lparr>bytesRead = 0, ones = 0, errs = [], inbuf = [0, 0]\<rparr>
     (delivered [[0x0F]] @ ([0xFF, 0xFF], Some EOF) # []) =
     (None, \<lparr>bytesRead = 1, ones = 4, errs = [], inbuf = [0xFF, 0xFF]\<rparr>)"
    by (simp add: countFile_def delivered_def countFile_loop.simps [of _ _ _ None]
        countFile_loop.simps [of _ _ _ "Some EOF"] Let_def popcount_loop_ref c [simplified])
  from T [THEN conjunct2, THEN conjunct1]
       T [THEN conjunct2, THEN conjunct2, THEN conjunct1]
       T [THEN conjunct2, THEN conjunct2, THEN conjunct2, THEN conjunct2, THEN conjunct1]
       T [THEN conjunct2, THEN conjunct2, THEN conjunct2, THEN conjunct2, THEN conjunct2] c run
  show ?thesis by simp
qed

text \<open>
  Claim C10. \<open>BUFF_SIZE\<close> is 1,000,000 and the buffer of the fresh accumulator has that
  length. \<open>countFile\<close> changes the accumulator in \<open>bytesRead\<close>, \<open>ones\<close> and the contents
  of the buffer only: putting the old values of these three back gives the old
  accumulator, the error log is the same, and the buffer has the length it had.
  \<open>count\<close> keeps the length of the buffer as well, so that the buffer \<open>main\<close> allocated
  serves the whole scan and still has \<open>BUFF_SIZE\<close> bytes at the report.
\<close>

theorem buffer_frame:
  "BUFF_SIZE = 1000000 \<and>
   length (inbuf fresh) = BUFF_SIZE \<and>
   (snd (countFile bc s))\<lparr>bytesRead := bytesRead bc, ones := ones bc, inbuf := inbuf bc\<rparr> = bc \<and>
   errs (snd (countFile bc s)) = errs bc \<and>
   length (inbuf (snd (countFile bc s))) = length (inbuf bc) \<and>
   length (inbuf (fst (snd (count root fsys (bc, out))))) = length (inbuf bc) \<and>
   length (inbuf (fst (snd (count ''.'' fsys (fresh, []))))) = BUFF_SIZE \<and>
   main fsys = Report (fst (snd (count ''.'' fsys (fresh, []))))
                 (snd (snd (count ''.'' fsys (fresh, []))))"
proof -
  have 1: "BUFF_SIZE = 1000000"
    by (simp add: BUFF_SIZE_def)
  have 2: "length (inbuf fresh) = BUFF_SIZE"
    by (simp add: fresh_def)
  have 3: "(snd (countFile bc s))\<lparr>bytesRead := bytesRead bc, ones := ones bc, inbuf := inbuf bc\<rparr> = bc"
    by (simp add: countFile_closed)
  have 4: "errs (snd (countFile bc s)) = errs bc"
    by (simp add: countFile_closed)
  have 5: "length (inbuf (snd (countFile bc s))) = length (inbuf bc)"
    by (simp add: countFile_closed)
  have 6: "length (inbuf (fst (snd (count root fsys (bc, out))))) = length (inbuf bc)"
    by (rule count_components)
  have 7: "length (inbuf (fst (snd (count ''.'' fsys (fresh, []))))) = BUFF_SIZE"
    using 2 by (simp add: count_components)
  have "fst (count ''.'' fsys (fresh, [])) = None"
    by (rule count_components)
  then have 8: "main fsys = Report (fst (snd (count ''.'' fsys (fresh, []))))
                 (snd (snd (count ''.'' fsys (fresh, []))))"
    by (cases "count ''.'' fsys (fresh, [])") (auto simp: main_def)
  from 1 2 3 4 5 6 7 8 show ?thesis by blast
qed

theorem buffer_frame_witness:
  "length (inbuf (snd (countFile \<lparr>bytesRead = 0, ones = 0, errs = [''earlier''], inbuf = [0, 0, 0]\<rparr>
      [([0xFF, 0x01, 0x02, 0x03, 0x04], None), ([0x0F], None)]))) = 3 \<and>
   errs (snd (countFile \<lparr>bytesRead = 0, ones = 0, errs = [''earlier''], inbuf = [0, 0, 0]\<rparr>
      [([0xFF, 0x01, 0x02, 0x03, 0x04], None), ([0x0F], None)])) = [''earlier''] \<and>
   length (inbuf (fst (snd (count ''.'' (Inr testdir) (fresh, []))))) = 1000000"
proof -
  note T = buffer_frame [where bc = "\<lparr>bytesRead = 0, ones = 0, errs = [''earlier''], inbuf = [0, 0, 0]\<rparr>"
      and s = "[([0xFF, 0x01, 0x02, 0x03, 0x04], None), ([0x0F], None)]" and fsys = "Inr testdir"]
  from T [THEN conjunct1]
       T [THEN conjunct2, THEN conjunct2, THEN conjunct2, THEN conjunct1]
       T [THEN conjunct2, THEN conjunct2, THEN conjunct2, THEN conjunct2, THEN conjunct1]
       T [THEN conjunct2, THEN conjunct2, THEN conjunct2, THEN conjunct2, THEN conjunct2,
          THEN conjunct2, THEN conjunct1]
  show ?thesis by simp
qed

end
